theory Spec2Isabelle
  imports Complex_Main "HOL-Library.Word" "HOL-Library.Multiset"
begin

unbundle bit_operations_syntax

section \<open>Python values used by \<open>trafilatura/hashing.py\<close>\<close>

text \<open>
  A Python \<open>str\<close> is a sequence of code points. It is modelled as a \<open>string\<close> whose
  characters stand for the code points 0 to 255 (\<open>ordc\<close> reads the code point), so
  \<open>length\<close> counts code points as Python's \<open>len\<close> does. The character classes
  below are those of CPython's Unicode database on that range.
\<close>

definition ordc :: "char \<Rightarrow> nat" where
  "ordc c = of_char c"

definition in_range :: "nat \<Rightarrow> nat \<Rightarrow> nat \<Rightarrow> bool" where
  "in_range lo hi n = (lo \<le> n \<and> n \<le> hi)"

definition isspace_c :: "char \<Rightarrow> bool" where
  \<comment> \<open>\<open>str.isspace\<close> on one character: TAB..CR, FS..US, space, NEL, NBSP.\<close>
  "isspace_c c = (let n = ordc c in in_range 9 13 n \<or> in_range 28 32 n \<or> n = 133 \<or> n = 160)"

definition isdecimal_c :: "char \<Rightarrow> bool" where
  "isdecimal_c c = in_range 48 57 (ordc c)"

definition isdigit_c :: "char \<Rightarrow> bool" where
  \<comment> \<open>\<open>str.isdigit\<close>: the decimal digits and the superscript digits U+00B2, U+00B3, U+00B9.\<close>
  "isdigit_c c = (let n = ordc c in in_range 48 57 n \<or> n = 178 \<or> n = 179 \<or> n = 185)"

definition isalpha_c :: "char \<Rightarrow> bool" where
  "isalpha_c c = (let n = ordc c in
     in_range 65 90 n \<or> in_range 97 122 n \<or> n = 170 \<or> n = 181 \<or> n = 186 \<or>
     in_range 192 214 n \<or> in_range 216 246 n \<or> in_range 248 255 n)"

definition isalnum_c :: "char \<Rightarrow> bool" where
  \<comment> \<open>alphabetic, decimal, digit or numeric (the fractions U+00BC..U+00BE).\<close>
  "isalnum_c c = (isalpha_c c \<or> isdecimal_c c \<or> isdigit_c c \<or> in_range 188 190 (ordc c))"

definition isalnum :: "string \<Rightarrow> bool" where
  "isalnum s = (s \<noteq> [] \<and> list_all isalnum_c s)"

definition isdigit :: "string \<Rightarrow> bool" where
  "isdigit s = (s \<noteq> [] \<and> list_all isdigit_c s)"

definition punctuation_c :: "char \<Rightarrow> bool" where
  \<comment> \<open>membership in \<open>string.punctuation\<close>, the 32 ASCII punctuation characters.\<close>
  "punctuation_c c = (let n = ordc c in
     in_range 33 47 n \<or> in_range 58 64 n \<or> in_range 91 96 n \<or> in_range 123 126 n)"

definition strip :: "(char \<Rightarrow> bool) \<Rightarrow> string \<Rightarrow> string" where
  \<comment> \<open>\<open>s.strip(chars)\<close>, the characters to remove given as a predicate.\<close>
  "strip P s = rev (dropWhile P (rev (dropWhile P s)))"

fun split_go :: "string \<Rightarrow> string \<Rightarrow> string list" where
  "split_go cur [] = (if cur = [] then [] else [cur])"
| "split_go cur (c # cs) =
     (if isspace_c c
      then (if cur = [] then split_go [] cs else cur # split_go [] cs)
      else split_go (cur @ [c]) cs)"

definition str_split :: "string \<Rightarrow> string list" where
  \<comment> \<open>\<open>s.split()\<close>: the maximal runs of non-whitespace characters.\<close>
  "str_split s = split_go [] s"

subsection \<open>Integers and their string forms\<close>

function to_base :: "nat \<Rightarrow> nat \<Rightarrow> nat list" where
  "to_base b n = (if b < 2 \<or> n < b then [n] else to_base b (n div b) @ [n mod b])"
  by pat_completeness auto
termination
  by (relation "measure (\<lambda>(b, n). n)") auto

declare to_base.simps [simp del]

definition max_str_digits :: nat where
  \<comment> \<open>CPython's default limit on the digits of a decimal integer string.\<close>
  "max_str_digits = 4300"

datatype error = ValueError | ZeroDivisionError

definition digit_char :: "nat \<Rightarrow> char" where
  "digit_char d = ''0123456789abcdef'' ! d"

definition int_repr :: "string \<Rightarrow> nat \<Rightarrow> int \<Rightarrow> string" where
  \<comment> \<open>sign, prefix and digits, as \<open>str\<close>, \<open>hex\<close> and \<open>bin\<close> print an integer.\<close>
  "int_repr prefix b n =
     (if n < 0 then ''-'' else '''') @ prefix @ map digit_char (to_base b (nat \<bar>n\<bar>))"



definition str_int :: "int \<Rightarrow> error + string" where
  \<comment> \<open>\<open>str(n)\<close>: CPython raises \<open>ValueError\<close> for an integer of more than 4300
      decimal digits (the default limit of integer string conversion).\<close>
  "str_int n =
     (if max_str_digits < length (to_base 10 (nat \<bar>n\<bar>)) then Inl ValueError
      else Inr (int_repr '''' 10 n))"

definition hex :: "int \<Rightarrow> string" where
  "hex n = int_repr ''0x'' 16 n"

definition bin :: "int \<Rightarrow> string" where
  "bin n = int_repr ''0b'' 2 n"



definition digit_value :: "nat \<Rightarrow> char \<Rightarrow> nat option" where
  "digit_value base c = (let n = ordc c; d =
        (if in_range 48 57 n then n - 48
         else if in_range 97 122 n then n - 87
         else if in_range 65 90 n then n - 55 else 36)
     in if d < base then Some d else None)"

definition c_isspace :: "char \<Rightarrow> bool" where
  \<comment> \<open>the whitespace skipped around an integer literal: space, TAB, LF, VT, FF, CR.\<close>
  "c_isspace c = (let n = ordc c in in_range 9 13 n \<or> n = 32)"

definition to_ascii :: "string \<Rightarrow> string" where
  \<comment> \<open>\<open>int\<close> first maps non-ASCII whitespace to a space and any other non-ASCII
      character (none is a decimal digit below 256) to a character no literal has.\<close>
  "to_ascii s = map (\<lambda>c. if ordc c < 127 then c
                          else if isspace_c c then CHR '' '' else CHR ''?'') s"

fun scan_digits :: "nat \<Rightarrow> bool \<Rightarrow> nat \<Rightarrow> string \<Rightarrow> (nat \<times> string) option" where
  "scan_digits base us acc [] = (if us then None else Some (acc, []))"
| "scan_digits base us acc (c # cs) =
     (if c = CHR ''_'' then (if us then None else scan_digits base True acc cs)
      else case digit_value base c of
             Some d \<Rightarrow> scan_digits base False (acc * base + d) cs
           | None \<Rightarrow> (if us then None else Some (acc, c # cs)))"

definition skip_prefix :: "nat \<Rightarrow> string \<Rightarrow> string" where
  \<comment> \<open>base 16 allows \<open>0x\<close> or \<open>0X\<close>, and one underscore after it.\<close>
  "skip_prefix base s =
     (case s of
        c0 # c1 # r \<Rightarrow>
          (if base = 16 \<and> c0 = CHR ''0'' \<and> (c1 = CHR ''x'' \<or> c1 = CHR ''X'')
           then (case r of u # r' \<Rightarrow> if u = CHR ''_'' then r' else r | [] \<Rightarrow> r)
           else s)
      | _ \<Rightarrow> s)"

definition digits_scanned :: "string \<Rightarrow> string \<Rightarrow> nat" where
  \<comment> \<open>the number of digits between the start of the literal and the rest left over.\<close>
  "digits_scanned s rest =
     length (filter (\<lambda>c. c \<noteq> CHR ''_'') (take (length s - length rest) s))"

definition py_int :: "nat \<Rightarrow> string \<Rightarrow> error + int" where
  \<comment> \<open>\<open>int(s, base)\<close> for base 10 and 16: whitespace, sign, prefix, digits with single
      underscores between them, whitespace; anything else raises \<open>ValueError\<close>, and
      so does a decimal literal of more than 4300 digits.\<close>
  "py_int base s =
     (let s1 = dropWhile c_isspace (to_ascii s);
          (neg, s2) = (case s1 of
                         c # r \<Rightarrow> if c = CHR ''+'' then (False, r)
                                  else if c = CHR ''-'' then (True, r) else (False, s1)
                       | [] \<Rightarrow> (False, s1));
          s3 = skip_prefix base s2
      in case s3 of
           [] \<Rightarrow> Inl ValueError
         | c # r \<Rightarrow>
            (if digit_value base c = None then Inl ValueError
             else case scan_digits base False 0 s3 of
                    None \<Rightarrow> Inl ValueError
                  | Some (v, rest) \<Rightarrow>
                      if dropWhile c_isspace rest = [] \<and>
                         \<not> (base = 10 \<and> max_str_digits < digits_scanned s3 rest)
                      then Inr (if neg then - int v else int v)
                      else Inl ValueError))"

section \<open>The Simhash class\<close>

type_synonym byte = "8 word"

text \<open>
  \<open>hashlib.blake2b\<close> is not part of the repository: the digest function is a parameter
  \<open>blake2b digest_size data\<close> of every definition that hashes.
\<close>

type_synonym digest_fn = "nat \<Rightarrow> byte list \<Rightarrow> byte list"

definition encode :: "string \<Rightarrow> byte list" where
  \<comment> \<open>\<open>s.encode()\<close>: UTF-8, one byte below 128 and two bytes from 128 to 255.\<close>
  "encode s = concat (map (\<lambda>c. let n = ordc c in
       if n < 128 then [of_nat n] else [of_nat (192 + n div 64), of_nat (128 + n mod 64)]) s)"

definition from_bytes_big :: "byte list \<Rightarrow> int" where
  "from_bytes_big bs = foldl (\<lambda>a b. 256 * a + uint b) 0 bs"

text \<open>
  The two slots of the class. The hash is a Python integer, which an existing hash can
  make negative or wider than the length; the field \<open>length\<close> is a number of bits and
  is a natural number here. The argument of \<open>validate\<close> has any type: \<open>PyOther\<close>
  stands for the values that are neither \<open>None\<close>, booleans, integers nor strings.
  The \<open>lru_cache\<close> on \<open>_vector_to_add\<close> only memoises a pure function and has no
  counterpart.
\<close>

record simhash =
  hash :: int
  length_bits :: nat

datatype pyval = PyNone | PyBool bool | PyInt int | PyStr string | PyOther

definition sample_filter :: "nat \<Rightarrow> string list \<Rightarrow> string list" where
  "sample_filter i tokens = filter (\<lambda>t. length t > i) tokens"

fun sample_loop :: "nat \<Rightarrow> string list \<Rightarrow> nat \<Rightarrow> string list" where
  "sample_loop len tokens 0 = sample_filter 0 tokens"
| "sample_loop len tokens (Suc i) =
     (let sample = sample_filter (Suc i) tokens
      in if len \<le> 2 * length sample then sample else sample_loop len tokens i)"

definition tokenize :: "string \<Rightarrow> string list" where
  "tokenize inputstring = filter isalnum (map (strip punctuation_c) (str_split inputstring))"

definition sample_tokens :: "nat \<Rightarrow> string \<Rightarrow> string list" where
  \<comment> \<open>\<open>len(sample) >= self.length / 2\<close> compares an integer with a float; it is
      \<open>length \<le> 2 * len(sample)\<close>.\<close>
  "sample_tokens len inputstring = sample_loop len (tokenize inputstring) 4"

definition simhash_hash :: "digest_fn \<Rightarrow> string \<Rightarrow> int" where
  "simhash_hash blake2b s = from_bytes_big (blake2b 8 (encode s))"

definition vector_to_add :: "digest_fn \<Rightarrow> nat \<Rightarrow> string \<Rightarrow> int list" where
  "vector_to_add blake2b len token =
     (let the_hash = simhash_hash blake2b token
      in map (\<lambda>i. if the_hash AND push_bit i 1 \<noteq> 0 then 1 else - 1) [0..<len])"

definition add_vectors :: "digest_fn \<Rightarrow> nat \<Rightarrow> int list \<Rightarrow> string list \<Rightarrow> int list" where
  "add_vectors blake2b len vector tokens =
     foldl (\<lambda>v token. map2 (+) v (vector_to_add blake2b len token)) vector tokens"

definition create_hash :: "digest_fn \<Rightarrow> nat \<Rightarrow> string \<Rightarrow> int" where
  "create_hash blake2b len inputstring =
     (let vector = add_vectors blake2b len (replicate len 0) (sample_tokens len inputstring)
      in sum_list (map (\<lambda>i. push_bit i 1) (filter (\<lambda>i. vector ! i \<ge> 0) [0..<len])))"

definition to_hex :: "simhash \<Rightarrow> string" where
  "to_hex h = drop 2 (hex (hash h))"

definition hash_to_int :: "string \<Rightarrow> int option" where
  "hash_to_int inputhash = (case py_int 16 inputhash of Inl e \<Rightarrow> None | Inr n \<Rightarrow> Some n)"

fun validate :: "pyval \<Rightarrow> error + int option" where
  "validate (PyInt n) =
     (case str_int n of
        Inl e \<Rightarrow> Inl e
      | Inr s \<Rightarrow> if length s = 16 then Inr (Some n) else Inr None)"
| "validate (PyStr s) =
     (if isdigit s \<and> 18 \<le> length s \<and> length s \<le> 22
      then (case py_int 10 s of Inl e \<Rightarrow> Inl e | Inr n \<Rightarrow> Inr (Some n))
      else Inr (hash_to_int s))"
| "validate (PyBool b) = Inr None"
| "validate PyNone = Inr None"
| "validate PyOther = Inr None"

definition Simhash :: "digest_fn \<Rightarrow> string \<Rightarrow> nat \<Rightarrow> pyval \<Rightarrow> error + simhash" where
  \<comment> \<open>\<open>validate(existing_hash) or create_hash(inputstring)\<close>: \<open>None\<close> and 0 are falsy.\<close>
  "Simhash blake2b inputstring len existing_hash =
     (case validate existing_hash of
        Inl e \<Rightarrow> Inl e
      | Inr v \<Rightarrow> Inr \<lparr>hash = (case v of
                                 Some n \<Rightarrow> if n \<noteq> 0 then n else create_hash blake2b len inputstring
                               | None \<Rightarrow> create_hash blake2b len inputstring),
                      length_bits = len\<rparr>)"

definition hamming_distance :: "simhash \<Rightarrow> simhash \<Rightarrow> nat" where
  "hamming_distance a b = length (filter (\<lambda>c. c = CHR ''1'') (bin (hash a XOR hash b)))"

definition similarity :: "simhash \<Rightarrow> simhash \<Rightarrow> error + rat" where
  \<comment> \<open>the quotient of two integers, kept exact; Python returns the nearest float, and
      division by a length of 0 raises.\<close>
  "similarity a b =
     (if length_bits a = 0 then Inl ZeroDivisionError
      else Inr (of_int (int (length_bits a) - int (hamming_distance a b))
                / of_int (int (length_bits a))))"

definition content_fingerprint :: "digest_fn \<Rightarrow> string \<Rightarrow> error + string" where
  "content_fingerprint blake2b content =
     (case Simhash blake2b content 64 PyNone of Inl e \<Rightarrow> Inl e | Inr h \<Rightarrow> Inr (to_hex h))"

text \<open>
  A concrete function of the digest function's type, to run the definitions on examples.
  It is not blake2b: it pads or cuts the data to the digest size.
\<close>

definition prefix_digest :: digest_fn where
  "prefix_digest n data = take n (data @ replicate n 0)"

text \<open>
  Position \<open>i\<close> of the component-wise sum of the tokens' vectors, and the integer whose
  set bits are the positions below \<open>n\<close> that satisfy \<open>P\<close>.
\<close>

definition aggregate :: "digest_fn \<Rightarrow> string list \<Rightarrow> nat \<Rightarrow> int" where
  "aggregate blake2b tokens i =
     (\<Sum>t\<leftarrow>tokens. if bit (simhash_hash blake2b t) i then 1 else - 1)"

definition bits_value :: "(nat \<Rightarrow> bool) \<Rightarrow> nat \<Rightarrow> int" where
  "bits_value P n = sum_list (map (\<lambda>i. push_bit i 1) (filter P [0..<n]))"

text \<open>
  The sampler as the specification words it, for comparison with \<open>sample_tokens\<close>:
  the threshold is a minimum token length, from 4 down to 0.
\<close>

definition min_length_filter :: "nat \<Rightarrow> string list \<Rightarrow> string list" where
  "min_length_filter m tokens = filter (\<lambda>t. m \<le> length t) tokens"

fun spec_sample_loop :: "nat \<Rightarrow> string list \<Rightarrow> nat \<Rightarrow> string list" where
  "spec_sample_loop len tokens 0 = min_length_filter 0 tokens"
| "spec_sample_loop len tokens (Suc m) =
     (let sample = min_length_filter (Suc m) tokens
      in if len \<le> 2 * length sample then sample else spec_sample_loop len tokens m)"

definition spec_sample_tokens :: "nat \<Rightarrow> string \<Rightarrow> string list" where
  "spec_sample_tokens len inputstring = spec_sample_loop len (tokenize inputstring) 4"

text \<open>An input of 32 five-letter tokens followed by one four-letter token.\<close>

definition sample_text :: string where
  "sample_text = concat (replicate 32 ''abcde '') @ ''abcd''"

text \<open>The number a string of decimal digits denotes.\<close>

definition decimal_value :: "string \<Rightarrow> nat" where
  "decimal_value s = foldl (\<lambda>a c. a * 10 + (ordc c - 48)) 0 s"

text \<open>The number of characters \<open>1\<close> of a string, as \<open>count("1")\<close> gives it.\<close>

definition count_ones :: "string \<Rightarrow> nat" where
  "count_ones s = length (filter (\<lambda>c. c = CHR ''1'') s)"

section \<open>The bag-of-words hash and the hashed file name\<close>

text \<open>
  \<open>re.findall(r"[\w-]{3,}", s)\<close> returns the maximal runs of word characters and
  hyphens that have at least three characters; \<open>\w\<close> matches the alphanumeric
  characters and the underscore. \<open>generate_bow_hash\<close> takes the digest length as an
  argument; Python's default for it is 24.
\<close>

definition lower_c :: "char \<Rightarrow> char" where
  "lower_c c = (let n = ordc c in
     if in_range 65 90 n \<or> in_range 192 214 n \<or> in_range 216 222 n
     then char_of (n + 32) else c)"

definition lower :: "string \<Rightarrow> string" where
  "lower s = map lower_c s"












section \<open>The URL store and the download buffer\<close>

text \<open>
  Modelled from the spec: \<open>trafilatura/downloads.py\<close> and the URL store it uses are not
  among the source files; only the test \<open>test_queue\<close> calls them. The store follows
  sections 3 and 4.5 of the specification: origin buckets (scheme and host) in the order
  of first appearance, each with its pending paths and a last-access time. Time is the
  explicit argument \<open>now\<close>. \<open>run_calls\<close> is the store after a sequence of buffer calls,
  and \<open>test_urls\<close> are the 18 URLs of the test.
\<close>

record bucket =
  origin :: string
  pending :: "string list"
  last_access :: "rat option"

type_synonym url_store = "bucket list"

definition split_scheme :: "string \<Rightarrow> (string \<times> string) option" where
  "split_scheme u =
     (if lower (take 8 u) = ''https://'' then Some (''https://'', drop 8 u)
      else if lower (take 7 u) = ''http://'' then Some (''http://'', drop 7 u)
      else None)"

definition parse_url :: "string \<Rightarrow> (string \<times> string) option" where
  "parse_url u =
     (case split_scheme u of
        None \<Rightarrow> None
      | Some (scheme, rest) \<Rightarrow>
          (let host = takeWhile (\<lambda>c. c \<noteq> CHR ''/'') rest;
               path = dropWhile (\<lambda>c. c \<noteq> CHR ''/'') rest
           in if host = [] then None else Some (scheme @ lower host, path)))"

fun insert_url :: "string \<times> string \<Rightarrow> url_store \<Rightarrow> url_store" where
  "insert_url (org, path) [] = [\<lparr>origin = org, pending = [path], last_access = None\<rparr>]"
| "insert_url (org, path) (b # bs) =
     (if origin b = org
      then (if path \<in> set (pending b) then b # bs
            else b\<lparr>pending := pending b @ [path]\<rparr> # bs)
      else b # insert_url (org, path) bs)"

definition add_to_store :: "string list \<Rightarrow> url_store" where
  \<comment> \<open>Modelled from the spec: \<open>add_to_compressed_dict\<close> of \<open>trafilatura/downloads.py\<close>
      (section 4.5, \<open>add_to_store\<close>): entries without a recognised scheme or without a
      host are dropped, duplicates are dropped, the rest is partitioned by origin.\<close>
  "add_to_store urls =
     foldl (\<lambda>store u. case parse_url u of None \<Rightarrow> store | Some e \<Rightarrow> insert_url e store) [] urls"

definition eligible :: "rat \<Rightarrow> rat \<Rightarrow> bucket \<Rightarrow> bool" where
  "eligible interval now b =
     (pending b \<noteq> [] \<and> (case last_access b of None \<Rightarrow> True | Some t \<Rightarrow> t + interval \<le> now))"

fun load_buffer :: "url_store \<Rightarrow> rat \<Rightarrow> rat \<Rightarrow> string list \<times> url_store" where
  \<comment> \<open>Modelled from the spec: \<open>load_download_buffer\<close> of \<open>trafilatura/downloads.py\<close>
      (section 4.5, \<open>load_buffer\<close>), with the clock as the argument \<open>now\<close>: at most one
      pending URL of each origin whose last access is unset or at least the politeness
      interval in the past; the origins served get the last access \<open>now\<close>.\<close>
  "load_buffer [] interval now = ([], [])"
| "load_buffer (b # bs) interval now =
     (let (batch, rest) = load_buffer bs interval now
      in case pending b of
           [] \<Rightarrow> (batch, b # rest)
         | p # ps \<Rightarrow>
             if eligible interval now b
             then ((origin b @ p) # batch, b\<lparr>pending := ps, last_access := Some now\<rparr> # rest)
             else (batch, b # rest))"

definition url_origins :: "string list \<Rightarrow> string set" where
  "url_origins urls = {org. \<exists>u\<in>set urls. \<exists>path. parse_url u = Some (org, path)}"

definition test_urls :: "string list" where
  "test_urls = concat (map (\<lambda>i. map (\<lambda>j. ''https://test'' @ i @ ''.org/'' @ j)
       [''1'', ''2'', ''3'']) [''1'', ''2'', ''3'', ''4'', ''5'', ''6''])"

definition fresh :: "url_store \<Rightarrow> bool" where
  "fresh st = (distinct (map origin st) \<and> list_all (\<lambda>b. pending b \<noteq> [] \<and> last_access b = None) st)"

definition store_step :: "url_store \<Rightarrow> string \<Rightarrow> url_store" where
  "store_step store u = (case parse_url u of None \<Rightarrow> store | Some e \<Rightarrow> insert_url e store)"

fun run_calls :: "url_store \<Rightarrow> (rat \<times> rat) list \<Rightarrow> url_store" where
  "run_calls st [] = st"
| "run_calls st ((interval, now) # cs) = run_calls (snd (load_buffer st interval now)) cs"

section \<open>Decompression of a fetched payload\<close>

text \<open>
  Modelled from the spec: \<open>handle_compressed_file\<close> of \<open>trafilatura/utils.py\<close> is not
  among the source files; only the test \<open>test_decode\<close> calls it. The gzip, zstd, brotli
  and zlib decoders are external libraries: a codec is a parameter, with the magic prefix
  that selects it (empty when it is tried on every input) and a decoder that gives
  \<open>None\<close> where the library raises. \<open>rejects\<close> says that a codec does not decode
  the data; \<open>framed_codec\<close> is a concrete codec to run the definition on examples: it
  is not a real decoder, it rejects any input shorter than its magic prefix and an
  eight-byte trailer.
\<close>

record codec =
  magic :: "byte list"
  decompress :: "byte list \<Rightarrow> byte list option"

definition applies :: "codec \<Rightarrow> byte list \<Rightarrow> bool" where
  "applies c data = (take (length (magic c)) data = magic c)"

fun handle_compressed_file :: "codec list \<Rightarrow> byte list \<Rightarrow> byte list" where
  \<comment> \<open>Modelled from the spec: \<open>handle_compressed_file\<close> of \<open>trafilatura/utils.py\<close>
      (sections 4.4 and 6): the codecs are tried in turn, a codec that fails on the input
      is passed over, and the input is returned unchanged when none decodes it.\<close>
  "handle_compressed_file [] data = data"
| "handle_compressed_file (c # cs) data =
     (if applies c data
      then (case decompress c data of
              Some out \<Rightarrow> out
            | None \<Rightarrow> handle_compressed_file cs data)
      else handle_compressed_file cs data)"

definition rejects :: "codec \<Rightarrow> byte list \<Rightarrow> bool" where
  "rejects c data = (applies c data \<longrightarrow> decompress c data = None)"

definition framed_codec :: "byte list \<Rightarrow> codec" where
  "framed_codec m =
     \<lparr>magic = m,
      decompress = (\<lambda>data. if length data < length m + 8 then None
                            else Some (drop (length m) (take (length data - 8) data)))\<rparr>"

definition gzip_magic :: "byte list" where
  "gzip_magic = [0x1f, 0x8b, 0x08]"

definition zstd_magic :: "byte list" where
  "zstd_magic = [0x28, 0xb5, 0x2f, 0xfd]"

definition test_codecs :: "codec list" where
  "test_codecs = [framed_codec gzip_magic, framed_codec zstd_magic, framed_codec []]"

section \<open>Evaluation lemmas\<close>

lemma sample_loop_4:
  "sample_loop len tokens 4 =
     (if len \<le> 2 * length (sample_filter 4 tokens) then sample_filter 4 tokens
      else if len \<le> 2 * length (sample_filter 3 tokens) then sample_filter 3 tokens
      else if len \<le> 2 * length (sample_filter 2 tokens) then sample_filter 2 tokens
      else if len \<le> 2 * length (sample_filter 1 tokens) then sample_filter 1 tokens
      else sample_filter 0 tokens)"
  by (simp add: eval_nat_numeral Let_def)

lemmas char_class_defs =
  ordc_def in_range_def isspace_c_def isdecimal_c_def isdigit_c_def isalpha_c_def
  isalnum_c_def isalnum_def isdigit_def punctuation_c_def c_isspace_def

lemmas sample_defs =
  sample_tokens_def tokenize_def str_split_def sample_filter_def strip_def sample_loop_4

lemmas py_int_defs =
  py_int_def to_ascii_def skip_prefix_def digit_value_def hash_to_int_def digits_scanned_def
  max_str_digits_def

lemmas repr_defs =
  hex_def bin_def str_int_def max_str_digits_def int_repr_def to_base.simps digit_char_def

section \<open>The hash of a text without tokens\<close>

lemma sum_pow2_upt: "sum_list (map (\<lambda>i. (2::int) ^ i) [0..<n]) = 2 ^ n - 1"
  by (induction n) simp_all

lemma add_vectors_Nil: "add_vectors bl len v [] = v"
  by (simp add: add_vectors_def)

lemma filter_replicate_nonneg:
  "filter (\<lambda>i. replicate n (0::int) ! i \<ge> 0) [0..<n] = [0..<n]"
  by (rule filter_True) simp

lemma create_hash_empty_sample:
  "sample_tokens len s = [] \<Longrightarrow> create_hash bl len s = 2 ^ len - 1"
  by (simp add: create_hash_def add_vectors_Nil filter_replicate_nonneg sum_pow2_upt)

lemma sample_tokens_empty: "sample_tokens len '''' = []"
  by (simp add: sample_defs)

text \<open>
  C9: when the sampled token list of the input is empty, \<open>create_hash\<close> returns the
  all-ones pattern \<open>2 ^ length - 1\<close>, whatever the digest function; and
  \<open>content_fingerprint("")\<close> is \<open>ffffffffffffffff\<close>.
\<close>

theorem create_hash_no_tokens:
  "(sample_tokens len s = [] \<longrightarrow> create_hash blake2b len s = 2 ^ len - 1) \<and>
   content_fingerprint blake2b '''' = Inr ''ffffffffffffffff''"
  by (simp add: create_hash_empty_sample content_fingerprint_def Simhash_def to_hex_def
      sample_tokens_empty repr_defs)

theorem create_hash_no_tokens_witness:
  "sample_tokens 64 ''!!! ... --'' = [] \<and>
   create_hash prefix_digest 64 ''!!! ... --'' = 2 ^ 64 - 1 \<and>
   content_fingerprint prefix_digest '''' = Inr ''ffffffffffffffff''"
proof -
  have e: "sample_tokens 64 ''!!! ... --'' = []"
    by (simp add: sample_defs char_class_defs)
  from create_hash_no_tokens [of 64 "''!!! ... --''" prefix_digest] e
  show ?thesis by simp
qed

section \<open>An existing hash of value zero\<close>

text \<open>
  C10: the constructor combines the validated existing hash and the computed hash with
  \<open>or\<close>, so an existing hash that validates to 0 (such as the string \<open>0\<close>) is
  discarded: the object holds the hash computed from the input string, as if no existing
  hash had been given.
\<close>

theorem zero_existing_hash_discarded:
  "validate (PyStr ''0'') = Inr (Some 0) \<and>
   (validate e = Inr (Some 0) \<longrightarrow>
      Simhash blake2b s len e = Inr \<lparr>hash = create_hash blake2b len s, length_bits = len\<rparr> \<and>
      Simhash blake2b s len e = Simhash blake2b s len PyNone)"
  by (simp add: Simhash_def py_int_defs char_class_defs)

theorem zero_existing_hash_discarded_witness:
  "validate (PyStr ''0'') = Inr (Some 0) \<and>
   Simhash prefix_digest ''some text'' 64 (PyStr ''0'') =
     Inr \<lparr>hash = create_hash prefix_digest 64 ''some text'', length_bits = 64\<rparr> \<and>
   Simhash prefix_digest ''some text'' 64 (PyStr ''0'') =
     Simhash prefix_digest ''some text'' 64 PyNone"
proof -
  note t = zero_existing_hash_discarded [of "PyStr ''0''" prefix_digest "''some text''" 64]
  from t have v: "validate (PyStr ''0'') = Inr (Some 0)" by (rule conjunct1)
  from t v show ?thesis by blast
qed

section \<open>The Charikar hash: vectors, aggregate and bits\<close>

lemma length_vector_to_add: "length (vector_to_add bl len t) = len"
  by (simp add: vector_to_add_def)

lemma nth_vector_to_add:
  "i < len \<Longrightarrow> vector_to_add bl len t ! i = (if bit (simhash_hash bl t) i then 1 else - 1)"
  by (simp add: vector_to_add_def bit_iff_and_push_bit_not_eq_0)

lemma add_vectors_Cons:
  "add_vectors bl len v (t # ts) = add_vectors bl len (map2 (+) v (vector_to_add bl len t)) ts"
  by (simp add: add_vectors_def)

lemma length_add_vectors: "length v = len \<Longrightarrow> length (add_vectors bl len v ts) = len"
  by (induction ts arbitrary: v) (simp_all add: add_vectors_Nil add_vectors_Cons length_vector_to_add)

lemma nth_add_vectors:
  "length v = len \<Longrightarrow> i < len \<Longrightarrow> add_vectors bl len v ts ! i = v ! i + aggregate bl ts i"
proof (induction ts arbitrary: v)
  case Nil
  then show ?case by (simp add: add_vectors_Nil aggregate_def)
next
  case (Cons t ts)
  let ?v = "map2 (+) v (vector_to_add bl len t)"
  have l: "length ?v = len" using Cons.prems by (simp add: length_vector_to_add)
  have n: "?v ! i = v ! i + (if bit (simhash_hash bl t) i then 1 else - 1)"
    using Cons.prems by (simp add: length_vector_to_add nth_vector_to_add)
  have "add_vectors bl len v (t # ts) ! i = ?v ! i + aggregate bl ts i"
    unfolding add_vectors_Cons using Cons.IH [OF l Cons.prems(2)] .
  with n show ?case by (simp add: aggregate_def)
qed

lemma create_hash_bits_value:
  "create_hash bl len s = bits_value (\<lambda>i. 0 \<le> aggregate bl (sample_tokens len s) i) len"
proof -
  have "filter (\<lambda>i. add_vectors bl len (replicate len 0) (sample_tokens len s) ! i \<ge> 0) [0..<len]
      = filter (\<lambda>i. 0 \<le> aggregate bl (sample_tokens len s) i) [0..<len]"
    by (rule filter_cong) (simp_all add: nth_add_vectors)
  then show ?thesis by (simp add: create_hash_def bits_value_def)
qed

lemma bits_value_Suc:
  "bits_value P (Suc n) = (if P 0 then 1 else 0) + 2 * bits_value (P \<circ> Suc) n"
proof -
  have "[0..<Suc n] = 0 # map Suc [0..<n]"
    by (simp add: upt_conv_Cons map_Suc_upt del: upt_Suc)
  then have "bits_value P (Suc n) =
      (if P 0 then 1 else 0) + sum_list (map (\<lambda>i. push_bit i 1) (filter P (map Suc [0..<n])))"
    by (simp add: bits_value_def del: upt_Suc)
  also have "sum_list (map (\<lambda>i. push_bit i (1::int)) (filter P (map Suc [0..<n])))
      = 2 * bits_value (P \<circ> Suc) n"
    by (simp add: bits_value_def filter_map sum_list_const_mult comp_def push_bit_eq_mult)
  finally show ?thesis .
qed

lemma bit_bits_value: "bit (bits_value P n) j \<longleftrightarrow> j < n \<and> P j"
proof (induction n arbitrary: P j)
  case 0
  then show ?case by (simp add: bits_value_def)
next
  case (Suc n)
  show ?case
  proof (cases j)
    case 0
    then show ?thesis by (simp add: bits_value_Suc bit_0)
  next
    case (Suc k)
    have "bit ((if P 0 then 1 else 0) + 2 * bits_value (P \<circ> Suc) n) (Suc k)
        = bit (bits_value (P \<circ> Suc) n) k"
      by (simp add: bit_Suc)
    then show ?thesis using Suc.IH [of "P \<circ> Suc" k] Suc by (simp add: bits_value_Suc)
  qed
qed

lemma bits_value_bounds: "0 \<le> bits_value P n \<and> bits_value P n < 2 ^ n"
proof (induction n arbitrary: P)
  case 0
  then show ?case by (simp add: bits_value_def)
next
  case (Suc n)
  from Suc [of "P \<circ> Suc"] show ?case by (auto simp: bits_value_Suc comp_def)
qed

lemma aggregate_mset:
  "mset ts = mset ts' \<Longrightarrow> aggregate bl ts i = aggregate bl ts' i"
proof -
  assume a: "mset ts = mset ts'"
  let ?f = "\<lambda>t. if bit (simhash_hash bl t) i then 1 else (- 1 :: int)"
  have "sum_list (map ?f ts) = sum_mset (image_mset ?f (mset ts))"
    by (simp add: sum_mset_sum_list [symmetric])
  also have "\<dots> = sum_mset (image_mset ?f (mset ts'))" using a by simp
  also have "\<dots> = sum_list (map ?f ts')"
    by (simp add: sum_mset_sum_list [symmetric])
  finally show ?thesis by (simp add: aggregate_def)
qed

lemma length_sample_filter_mset:
  "mset ts = mset ts' \<Longrightarrow> length (sample_filter i ts) = length (sample_filter i ts')"
proof -
  assume a: "mset ts = mset ts'"
  have "mset (sample_filter i ts) = mset (sample_filter i ts')"
    using a by (simp add: sample_filter_def)
  then show ?thesis by (rule mset_eq_length)
qed

lemma sample_loop_mset:
  "mset ts = mset ts' \<Longrightarrow> mset (sample_loop len ts i) = mset (sample_loop len ts' i)"
proof (induction i)
  case 0
  then show ?case by (simp add: sample_filter_def)
next
  case (Suc i)
  have m: "mset (sample_filter (Suc i) ts) = mset (sample_filter (Suc i) ts')"
    using Suc.prems by (simp add: sample_filter_def)
  show ?case
    using Suc m length_sample_filter_mset [OF Suc.prems, of "Suc i"] by (simp add: Let_def)
qed

lemma tokenize_mset:
  "mset (str_split s) = mset (str_split s') \<Longrightarrow> mset (tokenize s) = mset (tokenize s')"
proof -
  assume a: "mset (str_split s) = mset (str_split s')"
  have "mset (map (strip punctuation_c) (str_split s)) = mset (map (strip punctuation_c) (str_split s'))"
    using a by (metis mset_map)
  then show ?thesis by (metis tokenize_def mset_filter)
qed

lemma create_hash_mset:
  "mset (str_split s) = mset (str_split s') \<Longrightarrow> create_hash bl len s = create_hash bl len s'"
proof -
  assume a: "mset (str_split s) = mset (str_split s')"
  have "mset (sample_tokens len s) = mset (sample_tokens len s')"
    unfolding sample_tokens_def by (rule sample_loop_mset) (rule tokenize_mset [OF a])
  then have "\<And>i. aggregate bl (sample_tokens len s) i = aggregate bl (sample_tokens len s') i"
    by (rule aggregate_mset)
  then show ?thesis by (simp add: create_hash_bits_value)
qed

section \<open>Hexadecimal output and its parsing\<close>

lemma to_base_step:
  "2 \<le> b \<Longrightarrow> b \<le> n \<Longrightarrow> to_base b n = to_base b (n div b) @ [n mod b]"
  by (subst to_base.simps) simp

lemma to_base_small: "n < b \<Longrightarrow> to_base b n = [n]"
  by (subst to_base.simps) simp

lemma to_base_digits: "2 \<le> b \<Longrightarrow> d \<in> set (to_base b n) \<Longrightarrow> d < b"
proof (induction b n rule: to_base.induct)
  case (1 b n)
  show ?case
  proof (cases "n < b")
    case True
    with "1.prems" show ?thesis by (simp add: to_base_small)
  next
    case False
    with "1.prems" have "d \<in> set (to_base b (n div b)) \<or> d = n mod b"
      by (auto simp: to_base_step)
    then show ?thesis
    proof
      assume "d \<in> set (to_base b (n div b))"
      with "1.IH" False "1.prems" show ?thesis by simp
    next
      assume "d = n mod b"
      with "1.prems" show ?thesis by simp
    qed
  qed
qed

lemma to_base_value: "2 \<le> b \<Longrightarrow> foldl (\<lambda>a d. a * b + d) 0 (to_base b n) = n"
proof (induction b n rule: to_base.induct)
  case (1 b n)
  show ?case
  proof (cases "n < b")
    case True
    then show ?thesis by (simp add: to_base_small)
  next
    case False
    with "1.IH" "1.prems" have "foldl (\<lambda>a d. a * b + d) 0 (to_base b (n div b)) = n div b" by simp
    with False "1.prems" show ?thesis by (simp add: to_base_step)
  qed
qed

lemma to_base_length: "2 \<le> b \<Longrightarrow> n < b ^ k \<Longrightarrow> 0 < k \<Longrightarrow> length (to_base b n) \<le> k"
proof (induction b n arbitrary: k rule: to_base.induct)
  case (1 b n)
  show ?case
  proof (cases "n < b")
    case True
    with "1.prems" show ?thesis by (simp add: to_base_small)
  next
    case False
    obtain j where k: "k = Suc j" using "1.prems" by (cases k) auto
    have j: "0 < j" using False "1.prems" k by (cases j) auto
    have "n div b < b ^ j"
      using "1.prems" k by (simp add: less_mult_imp_div_less mult.commute)
    with "1.IH" [of j] False "1.prems" j have "length (to_base b (n div b)) \<le> j" by simp
    with False "1.prems" k show ?thesis by (simp add: to_base_step)
  qed
qed

lemma to_base_not_Nil: "to_base b n \<noteq> []"
  by (subst to_base.simps) simp

lemma hex_digit_cases:
  "d < 16 \<Longrightarrow> d \<in> {0, 1, 2, 3, 4, 5, 6, 7, 8, 9, 10, 11, 12, 13, 14, 15::nat}"
  by simp arith

lemma digit_char_props:
  assumes "d < 16"
  shows "digit_value 16 (digit_char d) = Some d"
    and "ordc (digit_char d) < 127"
    and "\<not> c_isspace (digit_char d)"
    and "digit_char d \<noteq> CHR ''+''" and "digit_char d \<noteq> CHR ''-''"
    and "digit_char d \<noteq> CHR ''_''"
    and "digit_char d \<noteq> CHR ''x''" and "digit_char d \<noteq> CHR ''X''"
  using hex_digit_cases [OF assms]
  by (auto simp: digit_char_def digit_value_def ordc_def in_range_def c_isspace_def)

lemma scan_hex_digits:
  "\<forall>d\<in>set ds. d < 16 \<Longrightarrow>
   scan_digits 16 False acc (map digit_char ds) = Some (foldl (\<lambda>a d. a * 16 + d) acc ds, [])"
  by (induction ds arbitrary: acc) (simp_all add: digit_char_props)

lemma py_int_hex_digits:
  assumes ds: "\<forall>d\<in>set ds. d < 16" and ne: "ds \<noteq> []"
  shows "py_int 16 (map digit_char ds) = Inr (int (foldl (\<lambda>a d. a * 16 + d) 0 ds))"
proof -
  obtain d r where dr: "ds = d # r" using ne by (cases ds) auto
  let ?s = "map digit_char ds"
  have d: "d < 16" using ds dr by simp
  have a: "to_ascii ?s = ?s"
    using ds by (induction ds) (simp_all add: to_ascii_def digit_char_props)
  have b: "dropWhile c_isspace ?s = ?s"
    using d dr by (simp add: digit_char_props)
  have c: "skip_prefix 16 ?s = ?s"
  proof (cases r)
    case Nil
    with dr show ?thesis by (simp add: skip_prefix_def)
  next
    case (Cons e r')
    with ds dr have "e < 16" by simp
    with Cons dr show ?thesis by (simp add: skip_prefix_def digit_char_props)
  qed
  have s: "(case ?s of c # r \<Rightarrow> if c = CHR ''+'' then (False, r)
                                  else if c = CHR ''-'' then (True, r) else (False, ?s)
                       | [] \<Rightarrow> (False, ?s)) = (False, ?s)"
    using d dr by (simp add: digit_char_props)
  show ?thesis
    unfolding py_int_def a b s Let_def prod.case c
    using d dr scan_hex_digits [OF ds, of 0] by (simp add: digit_char_props)
qed

lemma py_int_hex_to_base: "py_int 16 (map digit_char (to_base 16 n)) = Inr (int n)"
proof -
  have "\<forall>d\<in>set (to_base 16 n). d < 16" by (simp add: to_base_digits)
  from py_int_hex_digits [OF this to_base_not_Nil] show ?thesis by (simp add: to_base_value)
qed

lemma validate_to_hex:
  assumes "0 \<le> n" and "n < 2 ^ 64"
  shows "validate (PyStr (to_hex \<lparr>hash = n, length_bits = len\<rparr>)) = Inr (Some n)"
proof -
  let ?s = "map digit_char (to_base 16 (nat n))"
  have h: "to_hex \<lparr>hash = n, length_bits = len\<rparr> = ?s"
    using assms by (simp add: to_hex_def hex_def int_repr_def)
  have "nat n < 16 ^ 16" using assms by simp
  then have "length (to_base 16 (nat n)) \<le> 16" by (intro to_base_length) simp_all
  then have l: "\<not> 18 \<le> length ?s" by simp
  show ?thesis unfolding h using l assms by (simp add: hash_to_int_def py_int_hex_to_base)
qed

lemma from_bytes_big_nonneg: "0 \<le> from_bytes_big bs"
proof -
  have "0 \<le> a \<Longrightarrow> 0 \<le> foldl (\<lambda>a b. 256 * a + uint b) a bs" for a
    by (induction bs arbitrary: a) simp_all
  then show ?thesis by (simp add: from_bytes_big_def)
qed

section \<open>The claims on the hash and its serialisation\<close>

text \<open>
  C1: for a Simhash built from an input string with the default length 64, validating
  the hexadecimal string of the fingerprint gives back the numeric hash:
  \<open>validate(to_hex(h)) == h.hash\<close>, for every input string and digest function.
\<close>

theorem validate_to_hex_roundtrip:
  "Simhash blake2b s 64 PyNone = Inr \<lparr>hash = create_hash blake2b 64 s, length_bits = 64\<rparr> \<and>
   validate (PyStr (to_hex \<lparr>hash = create_hash blake2b 64 s, length_bits = 64\<rparr>))
     = Inr (Some (create_hash blake2b 64 s))"
proof -
  have a: "0 \<le> create_hash blake2b 64 s" and b: "create_hash blake2b 64 s < 2 ^ 64"
    using bits_value_bounds [of _ 64] by (simp_all add: create_hash_bits_value)
  have c: "Simhash blake2b s 64 PyNone
      = Inr \<lparr>hash = create_hash blake2b 64 s, length_bits = 64\<rparr>"
    by (simp add: Simhash_def)
  from c validate_to_hex [OF a b, of 64] show ?thesis by blast
qed

text \<open>
  C3: the vector of a token has one component per bit position of the configured length,
  +1 where that bit of the token's digest (8 bytes of the digest function, read as an
  unsigned big-endian integer) is set and -1 otherwise; bit \<open>i\<close> of the hash is set
  exactly when \<open>i\<close> is below the length and the sum of the sampled tokens' components
  at \<open>i\<close> is at least 0; and two inputs whose whitespace-separated tokens are
  permutations of each other have the same hash.
\<close>

theorem create_hash_charikar:
  "length (vector_to_add blake2b len t) = len \<and>
   (i < len \<longrightarrow>
      vector_to_add blake2b len t ! i = (if bit (simhash_hash blake2b t) i then 1 else - 1)) \<and>
   simhash_hash blake2b t = from_bytes_big (blake2b 8 (encode t)) \<and>
   0 \<le> simhash_hash blake2b t \<and>
   bit (create_hash blake2b len s) i
     = (i < len \<and> 0 \<le> aggregate blake2b (sample_tokens len s) i) \<and>
   (mset (str_split s) = mset (str_split s') \<longrightarrow>
      create_hash blake2b len s = create_hash blake2b len s')"
proof -
  have "mset (str_split s) = mset (str_split s') \<longrightarrow>
      create_hash blake2b len s = create_hash blake2b len s'"
    using create_hash_mset by blast
  moreover have "bit (create_hash blake2b len s) i
     = (i < len \<and> 0 \<le> aggregate blake2b (sample_tokens len s) i)"
    by (simp add: create_hash_bits_value bit_bits_value)
  ultimately show ?thesis
    by (simp add: length_vector_to_add nth_vector_to_add simhash_hash_def
        from_bytes_big_nonneg)
qed

theorem create_hash_charikar_witness:
  "(0::nat) < 64 \<and>
   vector_to_add prefix_digest 64 ''hello'' ! 0
     = (if bit (simhash_hash prefix_digest ''hello'') 0 then 1 else - 1) \<and>
   mset (str_split ''hello world'') = mset (str_split ''world hello'') \<and>
   create_hash prefix_digest 64 ''hello world'' = create_hash prefix_digest 64 ''world hello''"
proof -
  note t = create_hash_charikar [of prefix_digest 64 "''hello''" 0 "''hello world''"
      "''world hello''"]
  have l: "(0::nat) < 64" by simp
  have m: "mset (str_split ''hello world'') = mset (str_split ''world hello'')"
    by (simp add: str_split_def char_class_defs)
  from t l m show ?thesis by blast
qed

section \<open>The token sampler\<close>

lemma split_go_run:
  "list_all (\<lambda>c. \<not> isspace_c c) w \<Longrightarrow> split_go cur (w @ rest) = split_go (cur @ w) rest"
  by (induction w arbitrary: cur) simp_all

lemma split_go_repeat:
  assumes "w \<noteq> []" and "list_all (\<lambda>c. \<not> isspace_c c) w" and "isspace_c c"
  shows "split_go [] (concat (replicate n (w @ [c])) @ rest) = replicate n w @ split_go [] rest"
proof (induction n)
  case 0
  then show ?case by simp
next
  case (Suc n)
  have "split_go [] (w @ c # concat (replicate n (w @ [c])) @ rest)
      = split_go w (c # concat (replicate n (w @ [c])) @ rest)"
    using split_go_run [OF assms(2), of "[]"] by simp
  also have "\<dots> = w # split_go [] (concat (replicate n (w @ [c])) @ rest)"
    using assms by simp
  finally show ?case using Suc by simp
qed

lemma tokenize_sample_text: "tokenize sample_text = replicate 32 ''abcde'' @ [''abcd'']"
proof -
  have "str_split sample_text = replicate 32 ''abcde'' @ split_go [] ''abcd''"
    unfolding str_split_def sample_text_def
    using split_go_repeat [of "''abcde''" "CHR '' ''" 32 "''abcd''"]
    by (simp add: char_class_defs)
  then show ?thesis
    by (simp add: tokenize_def strip_def char_class_defs)
qed

lemma sample_tokens_sample_text: "sample_tokens 64 sample_text = replicate 32 ''abcde''"
  unfolding sample_tokens_def tokenize_sample_text
  by (simp add: sample_loop_4 sample_filter_def)

lemma spec_sample_loop_4:
  "spec_sample_loop len tokens 4 =
     (if len \<le> 2 * length (min_length_filter 4 tokens) then min_length_filter 4 tokens
      else if len \<le> 2 * length (min_length_filter 3 tokens) then min_length_filter 3 tokens
      else if len \<le> 2 * length (min_length_filter 2 tokens) then min_length_filter 2 tokens
      else if len \<le> 2 * length (min_length_filter 1 tokens) then min_length_filter 1 tokens
      else min_length_filter 0 tokens)"
  by (simp add: eval_nat_numeral Let_def)

lemma spec_sample_tokens_sample_text:
  "spec_sample_tokens 64 sample_text = replicate 32 ''abcde'' @ [''abcd'']"
  unfolding spec_sample_tokens_def tokenize_sample_text
  by (simp add: spec_sample_loop_4 min_length_filter_def)


lemma le_4_cases: "j \<le> 4 \<Longrightarrow> j = 0 \<or> j = 1 \<or> j = 2 \<or> j = 3 \<or> j = (4::nat)"
  by arith

lemma tokenize_nonempty: "t \<in> set (tokenize s) \<Longrightarrow> isalnum t \<and> t \<noteq> []"
  by (auto simp: tokenize_def isalnum_def)

lemma sample_filter_0_tokenize: "sample_filter 0 (tokenize s) = tokenize s"
  unfolding sample_filter_def by (rule filter_True) (auto dest: tokenize_nonempty)

lemma sample_tokens_reached:
  assumes "\<exists>i\<le>4. len \<le> 2 * length (sample_filter i (tokenize s))"
  shows "\<exists>m\<le>4. sample_tokens len s = sample_filter m (tokenize s) \<and>
           len \<le> 2 * length (sample_filter m (tokenize s)) \<and>
           (\<forall>j. m < j \<and> j \<le> 4 \<longrightarrow> \<not> len \<le> 2 * length (sample_filter j (tokenize s)))"
proof -
  let ?c = "\<lambda>i. len \<le> 2 * length (sample_filter i (tokenize s))"
  let ?Q = "\<lambda>m. sample_tokens len s = sample_filter m (tokenize s) \<and> ?c m \<and>
           (\<forall>j. m < j \<and> j \<le> 4 \<longrightarrow> \<not> ?c j)"
  from assms obtain i where i: "i \<le> 4" "?c i" by blast
  consider (a) "?c 4" | (b) "\<not> ?c 4" "?c 3" | (c) "\<not> ?c 4" "\<not> ?c 3" "?c 2"
    | (d) "\<not> ?c 4" "\<not> ?c 3" "\<not> ?c 2" "?c 1"
    | (e) "\<not> ?c 4" "\<not> ?c 3" "\<not> ?c 2" "\<not> ?c 1" "?c 0"
    using i le_4_cases [OF i(1)] by auto
  then show ?thesis
  proof cases
    case a
    then have "?Q 4" by (simp add: sample_tokens_def sample_loop_4)
    then show ?thesis by (intro exI [of _ 4]) simp
  next
    case b
    then have "?Q 3" by (auto simp: sample_tokens_def sample_loop_4 dest: le_4_cases)
    then show ?thesis by (intro exI [of _ 3]) simp
  next
    case c
    then have "?Q 2" by (auto simp: sample_tokens_def sample_loop_4 dest: le_4_cases)
    then show ?thesis by (intro exI [of _ 2]) simp
  next
    case d
    then have "?Q 1" by (auto simp: sample_tokens_def sample_loop_4 dest: le_4_cases)
    then show ?thesis by (intro exI [of _ 1]) simp
  next
    case e
    then have "?Q 0" by (auto simp: sample_tokens_def sample_loop_4 dest: le_4_cases)
    then show ?thesis by (intro exI [of _ 0]) simp
  qed
qed

lemma sample_tokens_not_reached:
  assumes "\<forall>i\<le>4. \<not> len \<le> 2 * length (sample_filter i (tokenize s))"
  shows "sample_tokens len s = tokenize s"
proof -
  have "\<not> len \<le> 2 * length (sample_filter i (tokenize s))" if "i \<le> 4" for i
    using assms that by blast
  from this [of 4] this [of 3] this [of 2] this [of 1] show ?thesis
    by (simp add: sample_tokens_def sample_loop_4 sample_filter_0_tokenize)
qed

text \<open>
  C4 (amended): the sampler keeps the whitespace-split tokens that are alphanumeric after
  stripping punctuation from both ends; for the threshold \<open>i\<close> from 4 down to 0 it takes
  the tokens strictly longer than \<open>i\<close> (a minimum token length of 5 relaxing down to 1)
  and returns the sample of the greatest threshold whose size is at least half the bit
  length; when no threshold reaches that size it returns the sample of threshold 0, which
  is the whole token list.
\<close>

theorem sample_tokens_threshold:
  "tokenize s = filter isalnum (map (strip punctuation_c) (str_split s)) \<and>
   sample_filter i ts = filter (\<lambda>t. i < length t) ts \<and>
   ((\<exists>i\<le>4. len \<le> 2 * length (sample_filter i (tokenize s))) \<longrightarrow>
      (\<exists>m\<le>4. sample_tokens len s = sample_filter m (tokenize s) \<and>
         len \<le> 2 * length (sample_filter m (tokenize s)) \<and>
         (\<forall>j. m < j \<and> j \<le> 4 \<longrightarrow>
              \<not> len \<le> 2 * length (sample_filter j (tokenize s))))) \<and>
   ((\<forall>i\<le>4. \<not> len \<le> 2 * length (sample_filter i (tokenize s))) \<longrightarrow>
      sample_tokens len s = tokenize s)"
  using sample_tokens_reached [of len s] sample_tokens_not_reached [of len s]
  by (simp add: tokenize_def sample_filter_def)

theorem sample_tokens_threshold_witness:
  "64 \<le> 2 * length (sample_filter 4 (tokenize sample_text)) \<and>
   sample_tokens 64 sample_text = sample_filter 4 (tokenize sample_text) \<and>
   sample_tokens 64 ''hello world'' = tokenize ''hello world''"
proof -
  have c4: "64 \<le> 2 * length (sample_filter 4 (tokenize sample_text))"
    by (simp add: tokenize_sample_text sample_filter_def)
  then have "\<exists>i\<le>4. 64 \<le> 2 * length (sample_filter i (tokenize sample_text))"
    by (intro exI [of _ 4]) simp
  with sample_tokens_threshold [of sample_text _ _ 64]
  obtain m where m: "m \<le> 4" "sample_tokens 64 sample_text = sample_filter m (tokenize sample_text)"
    "\<forall>j. m < j \<and> j \<le> 4 \<longrightarrow> \<not> 64 \<le> 2 * length (sample_filter j (tokenize sample_text))"
    by blast
  have "m = 4"
  proof (rule ccontr)
    assume "m \<noteq> 4"
    with m(1) have "m < 4 \<and> (4::nat) \<le> 4" by simp
    with m(3) c4 show False by blast
  qed
  with m(2) have a: "sample_tokens 64 sample_text = sample_filter 4 (tokenize sample_text)" by simp
  have t: "tokenize ''hello world'' = [''hello'', ''world'']"
    by (simp add: tokenize_def str_split_def strip_def char_class_defs)
  have "\<forall>i\<le>4. \<not> 64 \<le> 2 * length (sample_filter i (tokenize ''hello world''))"
    unfolding t by (simp add: sample_filter_def)
  with sample_tokens_threshold [of "''hello world''" _ _ 64]
  have b: "sample_tokens 64 ''hello world'' = tokenize ''hello world''" by blast
  from c4 a b show ?thesis by blast
qed

text \<open>
  C4 as stated fails: with a minimum token length of 4 the 33 tokens of \<open>sample_text\<close>
  all survive and reach the target of 32, but the code's first threshold keeps only the
  tokens longer than 4 and returns the 32 five-letter tokens.
\<close>

theorem sample_tokens_minimum_length_counterexample:
  "tokenize sample_text = replicate 32 ''abcde'' @ [''abcd''] \<and>
   sample_tokens 64 sample_text = replicate 32 ''abcde'' \<and>
   spec_sample_tokens 64 sample_text = replicate 32 ''abcde'' @ [''abcd''] \<and>
   sample_tokens 64 sample_text \<noteq> spec_sample_tokens 64 sample_text"
  by (simp add: tokenize_sample_text sample_tokens_sample_text spec_sample_tokens_sample_text)

section \<open>The shapes accepted by validate\<close>

lemma to_base_length_conv:
  "2 \<le> b \<Longrightarrow> 0 < k \<Longrightarrow> length (to_base b n) \<le> k \<Longrightarrow> n < b ^ k"
proof (induction b n arbitrary: k rule: to_base.induct)
  case (1 b n)
  show ?case
  proof (cases "n < b")
    case True
    have "b ^ 1 \<le> b ^ k" using "1.prems" by (intro power_increasing) simp_all
    with True show ?thesis by simp
  next
    case False
    with "1.prems" have l: "Suc (length (to_base b (n div b))) \<le> k" by (simp add: to_base_step)
    then obtain j where k: "k = Suc j" by (cases k) auto
    have j: "0 < j"
      using l k to_base_not_Nil [of b "n div b"] by (cases "to_base b (n div b)") auto
    from l k have "length (to_base b (n div b)) \<le> j" by simp
    with "1.IH" [of j] False "1.prems" j have d: "n div b < b ^ j" by simp
    have "n < b * b ^ j"
    proof -
      have m: "n mod b < b" using "1.prems" by simp
      have "n = b * (n div b) + n mod b" by simp
      with m have "n < b * (n div b) + b" by linarith
      also have "\<dots> = b * Suc (n div b)" by simp
      also have "\<dots> \<le> b * b ^ j" using d by (intro mult_le_mono2) simp
      finally show ?thesis .
    qed
    with k show ?thesis by simp
  qed
qed

lemma to_base_length_iff:
  "2 \<le> b \<Longrightarrow> 0 < k \<Longrightarrow> length (to_base b n) \<le> k \<longleftrightarrow> n < b ^ k"
  using to_base_length to_base_length_conv by blast

lemma to_base_length_eq:
  assumes "2 \<le> b" and "0 < k"
  shows "length (to_base b n) = Suc k \<longleftrightarrow> b ^ k \<le> n \<and> n < b ^ Suc k"
proof -
  have "length (to_base b n) = Suc k \<longleftrightarrow>
      length (to_base b n) \<le> Suc k \<and> \<not> length (to_base b n) \<le> k" by auto
  also have "\<dots> \<longleftrightarrow> n < b ^ Suc k \<and> \<not> n < b ^ k"
    using to_base_length_iff [OF assms(1), of "Suc k" n] to_base_length_iff [OF assms, of n]
    by simp
  finally show ?thesis by auto
qed

lemma length_int_repr_16:
  "length (int_repr '''' 10 n) = 16 \<longleftrightarrow>
     (10 ^ 15 \<le> n \<and> n < 10 ^ 16) \<or> (- (10 ^ 15) < n \<and> n \<le> - (10 ^ 14))"
proof (cases "n < 0")
  case False
  have "length (to_base 10 (nat n)) = Suc 15 \<longleftrightarrow> 10 ^ 15 \<le> nat n \<and> nat n < 10 ^ Suc 15"
    by (rule to_base_length_eq) simp_all
  with False show ?thesis by (simp add: int_repr_def) linarith
next
  case True
  have "length (to_base 10 (nat (- n))) = Suc 14 \<longleftrightarrow>
      10 ^ 14 \<le> nat (- n) \<and> nat (- n) < 10 ^ Suc 14"
    by (rule to_base_length_eq) simp_all
  with True show ?thesis by (simp add: int_repr_def) linarith
qed

lemma str_int_raises_iff:
  "str_int n = Inl ValueError \<longleftrightarrow> 10 ^ max_str_digits \<le> \<bar>n\<bar>"
proof -
  have p: "0 < max_str_digits" by (simp add: max_str_digits_def)
  have "length (to_base 10 (nat \<bar>n\<bar>)) \<le> max_str_digits \<longleftrightarrow> nat \<bar>n\<bar> < 10 ^ max_str_digits"
    using p by (intro to_base_length_iff) simp
  also have "\<dots> \<longleftrightarrow> \<bar>n\<bar> < 10 ^ max_str_digits"
  proof -
    have "int (nat \<bar>n\<bar>) = \<bar>n\<bar>" by simp
    moreover have "int (10 ^ max_str_digits) = 10 ^ max_str_digits" by simp
    ultimately show ?thesis by (metis of_nat_less_iff)
  qed
  finally show ?thesis by (auto simp: str_int_def)
qed

lemma validate_int:
  "validate (PyInt n) =
     (if 10 ^ max_str_digits \<le> \<bar>n\<bar> then Inl ValueError
      else if (10 ^ 15 \<le> n \<and> n < 10 ^ 16) \<or> (- (10 ^ 15) < n \<and> n \<le> - (10 ^ 14))
      then Inr (Some n) else Inr None)"
proof (cases "10 ^ max_str_digits \<le> \<bar>n\<bar>")
  case True
  then have "str_int n = Inl ValueError" by (simp add: str_int_raises_iff)
  with True show ?thesis by simp
next
  case False
  then have "str_int n \<noteq> Inl ValueError" by (simp add: str_int_raises_iff)
  then have "str_int n = Inr (int_repr '''' 10 n)" by (simp add: str_int_def split: if_splits)
  with False show ?thesis using length_int_repr_16 [of n] by simp
qed

lemma decimal_char_props:
  assumes "isdecimal_c c"
  shows "digit_value 10 c = Some (ordc c - 48)"
    and "ordc c < 127"
    and "\<not> c_isspace c"
    and "c \<noteq> CHR ''+''" and "c \<noteq> CHR ''-''" and "c \<noteq> CHR ''_''"
    and "isdigit_c c"
  using assms
  by (auto simp: isdecimal_c_def isdigit_c_def digit_value_def ordc_def in_range_def
      c_isspace_def Let_def)

lemma scan_decimal_digits:
  "list_all isdecimal_c s \<Longrightarrow>
   scan_digits 10 False acc s = Some (foldl (\<lambda>a c. a * 10 + (ordc c - 48)) acc s, [])"
  by (induction s arbitrary: acc) (simp_all add: decimal_char_props)

lemma py_int_decimal:
  assumes ds: "list_all isdecimal_c s" and ne: "s \<noteq> []" and le: "length s \<le> max_str_digits"
  shows "py_int 10 s = Inr (int (decimal_value s))"
proof -
  obtain c r where cr: "s = c # r" using ne by (cases s) auto
  have c: "isdecimal_c c" using ds cr by simp
  have a: "to_ascii s = s"
    using ds by (induction s) (simp_all add: to_ascii_def decimal_char_props)
  have b: "dropWhile c_isspace s = s"
    using c cr by (simp add: decimal_char_props)
  have p: "skip_prefix 10 s = s"
    by (simp add: skip_prefix_def split: list.split)
  have g: "(case s of c # r \<Rightarrow> if c = CHR ''+'' then (False, r)
                                  else if c = CHR ''-'' then (True, r) else (False, s)
                       | [] \<Rightarrow> (False, s)) = (False, s)"
    using c cr by (simp add: decimal_char_props)
  have "digits_scanned s [] \<le> length s" by (simp add: digits_scanned_def)
  with le have n: "\<not> max_str_digits < digits_scanned s []" by simp
  show ?thesis
    unfolding py_int_def a b g Let_def prod.case p
    using c cr n scan_decimal_digits [OF ds, of 0]
    by (simp add: decimal_char_props decimal_value_def)
qed

lemma isdigit_decimal: "list_all isdecimal_c s \<Longrightarrow> s \<noteq> [] \<Longrightarrow> isdigit s"
proof -
  have "list_all isdecimal_c s \<Longrightarrow> list_all isdigit_c s"
    by (induction s) (simp_all add: decimal_char_props)
  then show "list_all isdecimal_c s \<Longrightarrow> s \<noteq> [] \<Longrightarrow> isdigit s"
    by (simp add: isdigit_def)
qed

text \<open>
  What \<open>validate\<close> does on each shape of input: an integer is returned unchanged
  exactly when its \<open>str\<close> has 16 characters, and \<open>str\<close> raises above 4300
  digits; a string of 18 to 22 decimal digits 0..9 is parsed as a decimal integer; a
  string outside the digits-only 18 to 22 branch is parsed in base 16 and gives
  \<open>None\<close> when it is not a hexadecimal literal; \<open>None\<close>, booleans and values
  of any other type give \<open>None\<close>.
\<close>

lemma validate_shapes:
  "validate (PyInt n) =
     (if 10 ^ max_str_digits \<le> \<bar>n\<bar> then Inl ValueError
      else if (10 ^ 15 \<le> n \<and> n < 10 ^ 16) \<or> (- (10 ^ 15) < n \<and> n \<le> - (10 ^ 14))
      then Inr (Some n) else Inr None) \<and>
   (list_all isdecimal_c s \<and> 18 \<le> length s \<and> length s \<le> 22 \<longrightarrow>
      validate (PyStr s) = Inr (Some (int (decimal_value s)))) \<and>
   (\<not> (isdigit s \<and> 18 \<le> length s \<and> length s \<le> 22) \<longrightarrow>
      validate (PyStr s) = Inr (case py_int 16 s of Inl e \<Rightarrow> None | Inr v \<Rightarrow> Some v)) \<and>
   validate PyNone = Inr None \<and> validate (PyBool b) = Inr None \<and> validate PyOther = Inr None"
proof -
  have d: "validate (PyStr s) = Inr (Some (int (decimal_value s)))"
    if "list_all isdecimal_c s" "18 \<le> length s" "length s \<le> 22"
  proof -
    from that have ne: "s \<noteq> []" by auto
    from that have "length s \<le> max_str_digits" by (simp add: max_str_digits_def)
    with that ne show ?thesis by (simp add: isdigit_decimal py_int_decimal)
  qed
  have h: "validate (PyStr s) = Inr (case py_int 16 s of Inl e \<Rightarrow> None | Inr v \<Rightarrow> Some v)"
    if "\<not> (isdigit s \<and> 18 \<le> length s \<and> length s \<le> 22)"
    using that by (auto simp: hash_to_int_def)
  from validate_int [of n] d h show ?thesis by simp
qed

lemma validate_examples:
  "validate (PyInt 1234567890123456) = Inr (Some 1234567890123456) \<and>
   validate (PyStr ''123456789012345678'') = Inr (Some 123456789012345678) \<and>
   validate (PyStr ''ff'') = Inr (Some 255) \<and>
   validate (PyStr ''xyz'') = Inr None"
  by (simp add: py_int_defs char_class_defs repr_defs)

text \<open>
  C5: the claim has \<open>validate\<close> accept an integer exactly when it has 16 decimal
  digits and reject every input of no accepted shape by returning \<open>None\<close>, as the
  docstring (return the hash, or \<open>None\<close> otherwise) says. The code does neither: the
  guard measures \<open>len(str(inputhash))\<close>, sign included, so a negative integer of 15
  digits is returned and a negative integer of 16 digits is rejected; and the decimal
  branch calls \<open>int\<close> outside the \<open>try\<close>, so a string of 18 superscript digits,
  which \<open>str.isdigit\<close> accepts, raises \<open>ValueError\<close>.
\<close>

theorem validate_digit_check_slips:
  "validate (PyInt (- 123456789012345)) = Inr (Some (- 123456789012345)) \<and>
   validate (PyInt (- 1234567890123456)) = Inr None \<and>
   isdigit (replicate 18 (CHR 0xB2)) \<and>
   validate (PyStr (replicate 18 (CHR 0xB2))) = Inl ValueError"
proof -
  have r: "replicate 18 c = [c, c, c, c, c, c, c, c, c, c, c, c, c, c, c, c, c, c]"
    for c :: char
    by (simp add: eval_nat_numeral)
  have a: "validate (PyInt (- 123456789012345)) = Inr (Some (- 123456789012345))"
    by (simp add: repr_defs)
  have b: "validate (PyInt (- 1234567890123456)) = Inr None"
    by (simp add: repr_defs)
  have c: "isdigit (replicate 18 (CHR 0xB2))"
    unfolding r by (simp add: char_class_defs)
  have d: "validate (PyStr (replicate 18 (CHR 0xB2))) = Inl ValueError"
    unfolding r by (simp add: py_int_defs char_class_defs)
  from a b c d show ?thesis by blast
qed

section \<open>Hamming distance and similarity\<close>

lemma xor_eq_0_int: "(x XOR y = 0) = (x = y)" for x y :: int
proof
  assume a: "x XOR y = 0"
  have "y = (x XOR x) XOR y" by simp
  also have "\<dots> = x XOR (x XOR y)" by (simp only: xor.assoc)
  also have "\<dots> = x" using a by simp
  finally show "x = y" by simp
next
  assume "x = y"
  then show "x XOR y = 0" by simp
qed

lemma binary_digit_char: "d < 2 \<Longrightarrow> (digit_char d = CHR ''1'') = (d = 1)"
proof -
  assume "d < 2"
  then have "d = 0 \<or> d = 1" by arith
  then show ?thesis by (auto simp: digit_char_def)
qed

lemma ones_to_base_2:
  "count_ones (map digit_char (to_base 2 m)) = length (filter (\<lambda>d. d = 1) (to_base 2 m))"
proof -
  have "filter (\<lambda>c. c = CHR ''1'') (map digit_char (to_base 2 m))
      = map digit_char (filter (\<lambda>d. d = 1) (to_base 2 m))"
    unfolding filter_map comp_def
    by (intro arg_cong [where f = "map digit_char"] filter_cong refl)
       (simp add: binary_digit_char to_base_digits)
  then show ?thesis by (simp add: count_ones_def)
qed

lemma count_ones_bin: "count_ones (bin x) = length (filter (\<lambda>d. d = 1) (to_base 2 (nat \<bar>x\<bar>)))"
proof -
  have "count_ones (bin x) = count_ones (map digit_char (to_base 2 (nat \<bar>x\<bar>)))"
    by (simp add: bin_def int_repr_def count_ones_def)
  then show ?thesis by (simp add: ones_to_base_2)
qed

lemma one_in_to_base_2: "0 < m \<Longrightarrow> 1 \<in> set (to_base 2 m)"
proof (induction "2::nat" m rule: to_base.induct)
  case (1 m)
  show ?case
  proof (cases "m < 2")
    case True
    with "1.prems" have "m = 1" by simp
    then show ?thesis by (simp add: to_base_small)
  next
    case False
    then have "0 < m div 2" by simp
    with "1.hyps" False have "1 \<in> set (to_base 2 (m div 2))" by simp
    with False show ?thesis by (simp add: to_base_step)
  qed
qed

lemma count_ones_bin_zero: "(count_ones (bin x) = 0) = (x = 0)"
proof
  assume a: "count_ones (bin x) = 0"
  show "x = 0"
  proof (rule ccontr)
    assume "x \<noteq> 0"
    then have "0 < nat \<bar>x\<bar>" by simp
    then have "1 \<in> set (to_base 2 (nat \<bar>x\<bar>))" by (rule one_in_to_base_2)
    then have "filter (\<lambda>d. d = 1) (to_base 2 (nat \<bar>x\<bar>)) \<noteq> []"
      by (simp add: filter_empty_conv)
    with a show False by (simp add: count_ones_bin)
  qed
next
  assume "x = 0"
  then show "count_ones (bin x) = 0"
    by (simp add: count_ones_bin to_base_small)
qed

lemma count_ones_bin_le:
  assumes "0 \<le> x" and "x < 2 ^ n" and "0 < n"
  shows "count_ones (bin x) \<le> n"
proof -
  have "nat x < 2 ^ n" using assms by (simp add: nat_less_iff)
  then have l: "length (to_base 2 (nat x)) \<le> n"
    using assms(3) by (intro to_base_length) simp_all
  have f: "length (filter (\<lambda>d. d = 1) (to_base 2 (nat x))) \<le> length (to_base 2 (nat x))"
    by (rule length_filter_le)
  have "count_ones (bin x) = length (filter (\<lambda>d. d = 1) (to_base 2 (nat x)))"
    using assms(1) by (simp add: count_ones_bin)
  with order_trans [OF f l] show ?thesis by simp
qed

lemma hamming_distance_count: "hamming_distance a b = count_ones (bin (hash a XOR hash b))"
  by (simp add: hamming_distance_def count_ones_def)

lemma hamming_distance_sym: "hamming_distance a b = hamming_distance b a"
  by (simp add: hamming_distance_def xor.commute)

lemma hamming_distance_zero: "(hamming_distance a b = 0) = (hash a = hash b)"
  by (simp add: hamming_distance_count count_ones_bin_zero xor_eq_0_int)

lemma hamming_distance_le:
  assumes "0 \<le> hash a" "hash a < 2 ^ n" "0 \<le> hash b" "hash b < 2 ^ n" "0 < n"
  shows "hamming_distance a b \<le> n"
proof -
  have "hash a XOR hash b < 2 ^ n" using assms by (intro XOR_upper)
  moreover have "0 \<le> hash a XOR hash b" using assms by simp
  ultimately show ?thesis using assms(5) by (simp add: hamming_distance_count count_ones_bin_le)
qed

lemma similarity_self: "0 < length_bits a \<Longrightarrow> similarity a a = Inr 1"
proof -
  assume "0 < length_bits a"
  moreover have "hamming_distance a a = 0" by (simp add: hamming_distance_zero)
  ultimately show ?thesis by (simp add: similarity_def)
qed

lemma similarity_range:
  assumes "length_bits a = n" "0 < n"
    "0 \<le> hash a" "hash a < 2 ^ n" "0 \<le> hash b" "hash b < 2 ^ n"
  shows "\<exists>r. similarity a b = Inr r \<and> 0 \<le> r \<and> r \<le> 1 \<and>
           r = (of_nat n - of_nat (hamming_distance a b)) / of_nat n"
proof -
  have d: "hamming_distance a b \<le> n" using assms by (intro hamming_distance_le)
  let ?r = "(of_nat n - of_nat (hamming_distance a b)) / (of_nat n :: rat)"
  have s: "similarity a b = Inr ?r" using assms by (simp add: similarity_def)
  have "0 \<le> ?r" using d assms(2) by simp
  moreover have "?r \<le> 1" using d assms(2) by (simp add: divide_le_eq_1)
  ultimately show ?thesis using s by blast
qed

text \<open>
  What holds of the distance and the similarity in the code: the similarity of the
  Simhash of any input string with itself is 1;
  \<open>hamming_distance\<close> is symmetric and is zero exactly when the two numeric hashes
  are equal; every hash computed by \<open>create_hash\<close> lies in \<open>[0, 2 ^ length)\<close>; and
  for two Simhash values of the same positive length whose hashes lie in that range the
  similarity is \<open>(length - distance) / length\<close> and lies between 0 and 1.
\<close>

lemma similarity_properties:
  "similarity \<lparr>hash = create_hash blake2b 64 s, length_bits = 64\<rparr>
              \<lparr>hash = create_hash blake2b 64 s, length_bits = 64\<rparr> = Inr 1 \<and>
   hamming_distance a b = hamming_distance b a \<and>
   (hamming_distance a b = 0) = (hash a = hash b) \<and>
   0 \<le> create_hash blake2b n s \<and> create_hash blake2b n s < 2 ^ n \<and>
   (length_bits a = n \<and> length_bits b = n \<and> 0 < n \<and>
    0 \<le> hash a \<and> hash a < 2 ^ n \<and> 0 \<le> hash b \<and> hash b < 2 ^ n \<longrightarrow>
      (\<exists>r. similarity a b = Inr r \<and> 0 \<le> r \<and> r \<le> 1 \<and>
           r = (of_nat n - of_nat (hamming_distance a b)) / of_nat n))"
proof -
  have "0 \<le> create_hash blake2b n s \<and> create_hash blake2b n s < 2 ^ n"
    using bits_value_bounds [of _ n] by (simp add: create_hash_bits_value)
  moreover have "similarity \<lparr>hash = create_hash blake2b 64 s, length_bits = 64\<rparr>
              \<lparr>hash = create_hash blake2b 64 s, length_bits = 64\<rparr> = Inr 1"
    by (rule similarity_self) simp
  ultimately show ?thesis
    using hamming_distance_sym [of a b] hamming_distance_zero [of a b]
      similarity_range [of a n b]
    by blast
qed

lemma similarity_example:
  "similarity \<lparr>hash = 5, length_bits = 64\<rparr> \<lparr>hash = 6, length_bits = 64\<rparr> = Inr (31 / 32) \<and>
   hamming_distance \<lparr>hash = 5, length_bits = 64\<rparr> \<lparr>hash = 6, length_bits = 64\<rparr> = 2"
proof -
  let ?a = "\<lparr>hash = 5, length_bits = 64\<rparr>" and ?b = "\<lparr>hash = 6, length_bits = 64\<rparr>"
  have d: "hamming_distance ?a ?b = 2"
    by (simp add: hamming_distance_def repr_defs)
  have "length_bits ?a = 64 \<and> length_bits ?b = 64 \<and> (0::nat) < 64 \<and>
    0 \<le> hash ?a \<and> hash ?a < 2 ^ 64 \<and> 0 \<le> hash ?b \<and> hash ?b < 2 ^ 64" by simp
  with similarity_properties [of _ _ ?a ?b 64]
  obtain r where r: "similarity ?a ?b = Inr r"
    "r = (of_nat 64 - of_nat (hamming_distance ?a ?b)) / of_nat 64" by blast
  from r(2) d have "r = 31 / 32" by simp
  with r(1) d show ?thesis by simp
qed

text \<open>
  C2: the claim has the similarity of two Simhash values of equal length lie in
  \<open>[0, 1]\<close>, as the docstring of \<open>similarity\<close> says (a float from 0.0 to 1.0). The
  code breaks it, because \<open>validate\<close> never bounds an existing hash by the length:
  the constructor keeps the 26-digit hexadecimal string as a hash of 104 bits with length
  64, its distance to the hash 1 is 103, and the similarity of the two values of length
  64 is \<open>(64 - 103) / 64\<close>, a negative number.
\<close>

theorem similarity_out_of_range:
  "Simhash prefix_digest '''' 64 (PyStr ''ffffffffffffffffffffffffff'')
     = Inr \<lparr>hash = 2 ^ 104 - 1, length_bits = 64\<rparr> \<and>
   Simhash prefix_digest '''' 64 (PyStr ''1'') = Inr \<lparr>hash = 1, length_bits = 64\<rparr> \<and>
   hamming_distance \<lparr>hash = 2 ^ 104 - 1, length_bits = 64\<rparr> \<lparr>hash = 1, length_bits = 64\<rparr> = 103 \<and>
   similarity \<lparr>hash = 2 ^ 104 - 1, length_bits = 64\<rparr> \<lparr>hash = 1, length_bits = 64\<rparr>
     = Inr (- (39 / 64))"
proof -
  have v: "validate (PyStr ''ffffffffffffffffffffffffff'') = Inr (Some (2 ^ 104 - 1))"
    by (simp add: py_int_defs char_class_defs)
  have w: "validate (PyStr ''1'') = Inr (Some 1)"
    by (simp add: py_int_defs char_class_defs)
  have d: "hamming_distance \<lparr>hash = 2 ^ 104 - 1, length_bits = 64\<rparr>
      \<lparr>hash = 1, length_bits = 64\<rparr> = 103"
    by (simp add: hamming_distance_def repr_defs)
  show ?thesis
    unfolding Simhash_def v w similarity_def d by simp
qed

section \<open>Properties of the bag-of-words hash\<close>


















section \<open>Properties of the download buffer\<close>

lemma origins_insert_url:
  "map origin (insert_url (org, path) st) =
     (if org \<in> set (map origin st) then map origin st else map origin st @ [org])"
  by (induction st) auto

lemma fresh_insert_url: "fresh st \<Longrightarrow> fresh (insert_url (org, path) st)"
proof (induction st)
  case Nil
  then show ?case by (simp add: fresh_def)
next
  case (Cons b bs)
  then have f: "fresh bs" by (simp add: fresh_def)
  show ?case
  proof (cases "origin b = org")
    case True
    with Cons.prems show ?thesis by (simp add: fresh_def)
  next
    case False
    from Cons.IH [OF f] have i: "fresh (insert_url (org, path) bs)" .
    have "origin b \<notin> set (map origin (insert_url (org, path) bs))"
      using Cons.prems False by (simp add: origins_insert_url fresh_def)
    with i Cons.prems False show ?thesis by (simp add: fresh_def)
  qed
qed

lemma fresh_store_step: "fresh st \<Longrightarrow> fresh (store_step st u)"
  by (cases "parse_url u") (auto simp: store_step_def fresh_insert_url)

lemma image_origin_insert_url:
  "origin ` set (insert_url (org, path) st) = insert org (origin ` set st)"
  by (induction st) auto

lemma origins_store_step:
  "origin ` set (store_step st u) =
     origin ` set st \<union> {org. \<exists>path. parse_url u = Some (org, path)}"
proof (cases "parse_url u")
  case None
  then show ?thesis by (simp add: store_step_def)
next
  case (Some e)
  obtain org path where e: "e = (org, path)" by (cases e)
  with Some show ?thesis by (simp add: store_step_def image_origin_insert_url)
qed

lemma foldl_store_step:
  "fresh st \<Longrightarrow>
   fresh (foldl store_step st urls) \<and>
   set (map origin (foldl store_step st urls)) = set (map origin st) \<union> url_origins urls"
proof (induction urls arbitrary: st)
  case Nil
  then show ?case by (simp add: url_origins_def)
next
  case (Cons u urls)
  from Cons.IH [OF fresh_store_step [OF Cons.prems, of u]]
  have f: "fresh (foldl store_step (store_step st u) urls)"
    and o: "origin ` set (foldl store_step (store_step st u) urls)
        = origin ` set (store_step st u) \<union> url_origins urls" by simp_all
  have "url_origins (u # urls) = {org. \<exists>path. parse_url u = Some (org, path)} \<union> url_origins urls"
    by (auto simp: url_origins_def)
  with f o show ?case by (simp add: origins_store_step Un_assoc)
qed

lemma add_to_store_fold: "add_to_store urls = foldl store_step [] urls"
  by (simp add: add_to_store_def store_step_def [abs_def])

lemma add_to_store_fresh:
  "fresh (add_to_store urls) \<and> set (map origin (add_to_store urls)) = url_origins urls"
  using foldl_store_step [of "[]" urls] by (simp add: add_to_store_fold fresh_def)

lemma length_add_to_store: "length (add_to_store urls) = card (url_origins urls)"
proof -
  have "distinct (map origin (add_to_store urls))"
    using add_to_store_fresh [of urls] by (simp add: fresh_def)
  then have "card (set (map origin (add_to_store urls))) = length (map origin (add_to_store urls))"
    by (rule distinct_card)
  then show ?thesis using add_to_store_fresh [of urls] by simp
qed

lemma load_buffer_sizes:
  "length (fst (load_buffer st interval now)) \<le> length st \<and>
   map origin (snd (load_buffer st interval now)) = map origin st"
  by (induction st) (auto simp: Let_def split: prod.splits list.splits)

lemma load_buffer_fresh:
  "list_all (\<lambda>b. pending b \<noteq> [] \<and> last_access b = None) st \<Longrightarrow>
   fst (load_buffer st interval now) = map (\<lambda>b. origin b @ hd (pending b)) st"
  by (induction st) (auto simp: Let_def eligible_def split: prod.splits list.splits)

lemma origins_run_calls: "map origin (run_calls st cs) = map origin st"
  by (induction st cs rule: run_calls.induct) (simp_all add: load_buffer_sizes)

lemma length_run_calls: "length (run_calls st cs) = length st"
  using origins_run_calls [of st cs] by (metis length_map)

lemma test_store:
  "add_to_store test_urls =
     map (\<lambda>org. \<lparr>origin = org, pending = [''/1'', ''/2'', ''/3''], last_access = None\<rparr>)
       [''https://test1.org'', ''https://test2.org'', ''https://test3.org'',
        ''https://test4.org'', ''https://test5.org'', ''https://test6.org'']"
  by (simp add: test_urls_def add_to_store_def parse_url_def split_scheme_def lower_def
      lower_c_def ordc_def in_range_def)

text \<open>
  C6: the store built from any URL list has one bucket for each distinct origin, and the
  first buffer taken from it has exactly one entry of each origin: for the 18 test URLs
  on 6 origins, 6 entries. A buffer taken after any sequence of earlier calls, with any
  interval and at any time, has at most as many entries as the store has origins.
\<close>

theorem load_buffer_one_per_origin:
  "length test_urls = 18 \<and> card (url_origins test_urls) = 6 \<and>
   distinct (map origin (add_to_store urls)) \<and>
   set (map origin (add_to_store urls)) = url_origins urls \<and>
   fst (load_buffer (add_to_store urls) interval now)
     = map (\<lambda>b. origin b @ hd (pending b)) (add_to_store urls) \<and>
   length (fst (load_buffer (add_to_store urls) interval now)) = card (url_origins urls) \<and>
   length (fst (load_buffer (run_calls (add_to_store urls) calls) interval' now'))
     \<le> card (url_origins urls)"
proof -
  have l: "length test_urls = 18" by (simp add: test_urls_def)
  have "length (add_to_store test_urls) = 6" by (simp add: test_store)
  then have c: "card (url_origins test_urls) = 6" by (simp add: length_add_to_store)
  have f: "fresh (add_to_store urls)" and o: "set (map origin (add_to_store urls)) = url_origins urls"
    using add_to_store_fresh [of urls] by simp_all
  from f have d: "distinct (map origin (add_to_store urls))" by (simp add: fresh_def)
  from f have b: "fst (load_buffer (add_to_store urls) interval now)
     = map (\<lambda>b. origin b @ hd (pending b)) (add_to_store urls)"
    by (intro load_buffer_fresh) (simp add: fresh_def)
  then have n: "length (fst (load_buffer (add_to_store urls) interval now)) = card (url_origins urls)"
    by (simp add: length_add_to_store)
  have "length (fst (load_buffer (run_calls (add_to_store urls) calls) interval' now'))
      \<le> length (run_calls (add_to_store urls) calls)"
    using load_buffer_sizes by blast
  then have s: "length (fst (load_buffer (run_calls (add_to_store urls) calls) interval' now'))
     \<le> card (url_origins urls)"
    by (simp add: length_run_calls length_add_to_store)
  from l c d o b n s show ?thesis by blast
qed

text \<open>
  The calls of the test: the first buffer holds the first URL of each of the six origins;
  a quarter of a second later a buffer with interval 0.1 has 6 entries again, and one
  with interval 5 has none.
\<close>

theorem load_buffer_test_queue:
  "fst (load_buffer (add_to_store test_urls) 5 0) =
     [''https://test1.org/1'', ''https://test2.org/1'', ''https://test3.org/1'',
      ''https://test4.org/1'', ''https://test5.org/1'', ''https://test6.org/1''] \<and>
   length (fst (load_buffer (run_calls (add_to_store test_urls) [(5, 0)]) (1 / 10) (1 / 4))) = 6 \<and>
   length (fst (load_buffer (run_calls (add_to_store test_urls) [(5, 0)]) 5 (1 / 4))) = 0"
proof -
  from load_buffer_one_per_origin [of test_urls 5 0]
  have "fst (load_buffer (add_to_store test_urls) 5 0)
     = map (\<lambda>b. origin b @ hd (pending b)) (add_to_store test_urls)" by blast
  then have a: "fst (load_buffer (add_to_store test_urls) 5 0) =
     [''https://test1.org/1'', ''https://test2.org/1'', ''https://test3.org/1'',
      ''https://test4.org/1'', ''https://test5.org/1'', ''https://test6.org/1'']"
    by (simp add: test_store)
  have b: "length (fst (load_buffer (run_calls (add_to_store test_urls) [(5, 0)]) (1 / 10) (1 / 4))) = 6"
    by (simp add: test_store eligible_def)
  have c: "length (fst (load_buffer (run_calls (add_to_store test_urls) [(5, 0)]) 5 (1 / 4))) = 0"
    by (simp add: test_store eligible_def)
  from a b c show ?thesis by blast
qed

section \<open>Properties of the decompression cascade\<close>

lemma handle_rejected:
  "list_all (\<lambda>c. rejects c data) codecs \<Longrightarrow> handle_compressed_file codecs data = data"
  by (induction codecs) (auto simp: rejects_def)

lemma handle_result:
  "handle_compressed_file codecs data = data \<or>
   (\<exists>c\<in>set codecs. applies c data \<and> decompress c data = Some (handle_compressed_file codecs data))"
  by (induction codecs) (auto split: option.splits)

lemma handle_first:
  "applies c data \<Longrightarrow> decompress c data = Some out \<Longrightarrow> list_all (\<lambda>c. rejects c data) before \<Longrightarrow>
   handle_compressed_file (before @ c # after) data = out"
  by (induction before) (auto simp: rejects_def)

text \<open>
  C7: bytes that no codec decodes are returned unchanged, whatever the codecs and
  whatever the bytes begin with (a gzip or zstd magic prefix followed by garbage
  included); the result is always either the input or the output of a codec that
  accepted the input, so nothing is raised; and data that the first applicable codec
  decodes is returned decoded.
\<close>

theorem handle_compressed_file_garbage:
  "(list_all (\<lambda>c. rejects c data) codecs \<longrightarrow> handle_compressed_file codecs data = data) \<and>
   (handle_compressed_file codecs data = data \<or>
    (\<exists>c\<in>set codecs. applies c data \<and>
        decompress c data = Some (handle_compressed_file codecs data))) \<and>
   (applies c data \<and> decompress c data = Some out \<and> list_all (\<lambda>c. rejects c data) before \<longrightarrow>
      handle_compressed_file (before @ c # after) data = out)"
  using handle_rejected [of data codecs] handle_result [of codecs data]
    handle_first [of c data out before after]
  by blast

theorem handle_compressed_file_garbage_witness:
  "handle_compressed_file test_codecs (gzip_magic @ [0x61, 0x62, 0x63]) = gzip_magic @ [0x61, 0x62, 0x63] \<and>
   handle_compressed_file test_codecs (zstd_magic @ [0x61, 0x62, 0x63]) = zstd_magic @ [0x61, 0x62, 0x63] \<and>
   handle_compressed_file test_codecs [0x61, 0x62, 0x63] = [0x61, 0x62, 0x63] \<and>
   handle_compressed_file test_codecs (gzip_magic @ [0x61, 0x62, 0x63, 0, 0, 0, 0, 0, 0, 0, 0])
     = [0x61, 0x62, 0x63]"
proof -
  have r: "list_all (\<lambda>c. rejects c (gzip_magic @ [0x61, 0x62, 0x63])) test_codecs"
    "list_all (\<lambda>c. rejects c (zstd_magic @ [0x61, 0x62, 0x63])) test_codecs"
    "list_all (\<lambda>c. rejects c [0x61, 0x62, 0x63]) test_codecs"
    by (simp_all add: test_codecs_def rejects_def applies_def framed_codec_def gzip_magic_def
        zstd_magic_def)
  note t = handle_compressed_file_garbage [of _ test_codecs]
  from t [of "gzip_magic @ [0x61, 0x62, 0x63]"] r(1)
  have a: "handle_compressed_file test_codecs (gzip_magic @ [0x61, 0x62, 0x63])
      = gzip_magic @ [0x61, 0x62, 0x63]" by blast
  from t [of "zstd_magic @ [0x61, 0x62, 0x63]"] r(2)
  have b: "handle_compressed_file test_codecs (zstd_magic @ [0x61, 0x62, 0x63])
      = zstd_magic @ [0x61, 0x62, 0x63]" by blast
  from t [of "[0x61, 0x62, 0x63]"] r(3)
  have c: "handle_compressed_file test_codecs [0x61, 0x62, 0x63] = [0x61, 0x62, 0x63]" by blast
  let ?d = "gzip_magic @ [0x61, 0x62, 0x63, 0, 0, 0, 0, 0, 0, 0, 0]"
  have "applies (framed_codec gzip_magic) ?d \<and>
      decompress (framed_codec gzip_magic) ?d = Some [0x61, 0x62, 0x63] \<and>
      list_all (\<lambda>c. rejects c ?d) []"
    by (simp add: applies_def framed_codec_def gzip_magic_def)
  with handle_compressed_file_garbage [of ?d _ "framed_codec gzip_magic" "[0x61, 0x62, 0x63]" "[]"
      "[framed_codec zstd_magic, framed_codec []]"]
  have "handle_compressed_file ([] @ framed_codec gzip_magic # [framed_codec zstd_magic, framed_codec []]) ?d
      = [0x61, 0x62, 0x63]" by blast
  then have d: "handle_compressed_file test_codecs ?d = [0x61, 0x62, 0x63]"
    by (simp add: test_codecs_def)
  from a b c d show ?thesis by blast
qed

end
